theory Spec2Isabelle
  imports Main "HOL-Library.Sublist"
begin

section \<open>Python values used by the scraper\<close>

text \<open>
  Strings are \<open>string\<close> (lists of characters). The three string operations the scraper
  uses are written out: \<open>sub in s\<close>, \<open>s.startswith(p)\<close> and \<open>s.split(sep)\<close> for a
  one-character separator, followed by the index \<open>[0]\<close>.
\<close>

datatype exn_kind =
  PlaywrightError | PlaywrightTimeout | AuthenticationError | ScrapingError | IndexError
  | RuntimeError

text \<open>An instance of a subclass of Python's \<open>Exception\<close>; the string is \<open>str(e)\<close>.\<close>

datatype exn = Exn exn_kind string

fun str_exn :: "exn \<Rightarrow> string" where
  "str_exn (Exn k msg) = msg"

text \<open>\<open>sub in s\<close>: some suffix of \<open>s\<close> starts with \<open>sub\<close>.\<close>

fun py_in :: "string \<Rightarrow> string \<Rightarrow> bool" where
  "py_in sub [] = (sub = [])"
| "py_in sub (c # cs) = (prefix sub (c # cs) \<or> py_in sub cs)"

text \<open>\<open>s.startswith(p)\<close>.\<close>

definition startswith :: "string \<Rightarrow> string \<Rightarrow> bool" where
  "startswith s p = prefix p s"

text \<open>\<open>s.split(sep)\<close> for a separator of one character: never the empty list.\<close>

fun py_split :: "char \<Rightarrow> string \<Rightarrow> string list" where
  "py_split sep [] = [[]]"
| "py_split sep (c # cs) =
     (if c = sep then [] # py_split sep cs
      else (case py_split sep cs of
              [] \<Rightarrow> [[c]]
            | w # ws \<Rightarrow> (c # w) # ws))"

text \<open>\<open>xs[0]\<close>, which raises IndexError on the empty list.\<close>

definition index0 :: "string list \<Rightarrow> exn + string" where
  "index0 xs = (case xs of [] \<Rightarrow> Inl (Exn IndexError ''list index out of range'') | x # _ \<Rightarrow> Inr x)"

section \<open>Link extraction (saved\_jobs.py, \_extract\_job\_urls)\<close>

text \<open>
  An anchor element is what \<open>await link.get_attribute("href")\<close> answers for it: the call
  raises (a stale handle), returns \<open>None\<close> (no such attribute) or returns the href.
\<close>

type_synonym anchor = "exn + string option"

text \<open>
  Lines 109 to 111: the query string is cut off at the first question mark, and a URL
  that does not start with \<open>http\<close> is prefixed with the origin.
\<close>

definition clean_url :: "string \<Rightarrow> exn + string" where
  "clean_url href =
     (case (if py_in ''?'' href then index0 (py_split CHR ''?'' href) else Inr href) of
        Inl e \<Rightarrow> Inl e
      | Inr u \<Rightarrow>
          Inr (if \<not> startswith u ''http'' then ''https://www.linkedin.com'' @ u else u))"

text \<open>
  Lines 104 to 111 and 116 to 118, the body of the inner \<open>try\<close> up to the membership test:
  \<open>None\<close> is \<open>continue\<close>, reached from the guard of line 106 or from the
  \<open>except Exception\<close> clause; \<open>Some u\<close> is the normalized URL of the element.
\<close>

definition link_url :: "anchor \<Rightarrow> string option" where
  "link_url link =
     (case link of
        Inl e \<Rightarrow> None
      | Inr None \<Rightarrow> None
      | Inr (Some href) \<Rightarrow>
          if href = [] \<or> \<not> py_in ''/jobs/view/'' href then None
          else (case clean_url href of Inl e \<Rightarrow> None | Inr u \<Rightarrow> Some u))"

text \<open>Lines 113 to 115: the state is the list \<open>job_urls\<close> and the set \<open>seen_urls\<close>.\<close>

fun extract_link :: "anchor \<Rightarrow> string list \<times> string set \<Rightarrow> string list \<times> string set" where
  "extract_link link (job_urls, seen_urls) =
     (case link_url link of
        None \<Rightarrow> (job_urls, seen_urls)
      | Some u \<Rightarrow>
          if u \<notin> seen_urls then (job_urls @ [u], insert u seen_urls)
          else (job_urls, seen_urls))"

text \<open>Lines 100 to 118: the \<open>for\<close> loop, with its \<open>break\<close> at the limit.\<close>

fun extract_loop ::
  "int \<Rightarrow> anchor list \<Rightarrow> string list \<times> string set \<Rightarrow> string list \<times> string set" where
  "extract_loop limit [] st = st"
| "extract_loop limit (link # links) (job_urls, seen_urls) =
     (if int (length job_urls) \<ge> limit then (job_urls, seen_urls)
      else extract_loop limit links (extract_link link (job_urls, seen_urls)))"

text \<open>
  Lines 94 to 123. The first argument is what
  \<open>await self.page.locator('a[href*="/jobs/view/"]').all()\<close> answers: it raises, and the
  outer \<open>except\<close> returns the still empty list, or it gives the anchors.
\<close>

definition extract_job_urls :: "exn + anchor list \<Rightarrow> int \<Rightarrow> string list" where
  "extract_job_urls located limit =
     (case located of
        Inl e \<Rightarrow> []
      | Inr job_links \<Rightarrow> fst (extract_loop limit job_links ([], {})))"

section \<open>The scrape operation (saved\_jobs.py, scrape)\<close>

text \<open>
  \<open>str(n)\<close> for a natural number, used by the progress message of line 74.
\<close>

fun str_nat :: "nat \<Rightarrow> string" where
  "str_nat n =
     (if n < 10 then [''0123456789'' ! n]
      else str_nat (n div 10) @ [''0123456789'' ! (n mod 10)])"

declare str_nat.simps [simp del]

text \<open>
  The four methods of the progress callback, with their arguments. The callback is the
  caller's code: it is a parameter, a function from the call to its outcome
  (\<open>None\<close>: it returned; \<open>Some e\<close>: it raised \<open>e\<close>).
\<close>

datatype cb_call =
  OnStart string string
| OnProgress string nat
| OnComplete string "string list"
| OnError exn

text \<open>
  The methods \<open>scrape\<close> awaits on the page and on its base class (BaseScraper, whose file
  is not among the sources): each is a parameter giving the outcome of the one call
  \<open>scrape\<close> makes. \<open>locate_job_links\<close> is the answer of
  \<open>self.page.locator('a[href*="/jobs/view/"]').all()\<close> inside \_extract\_job\_urls.
\<close>

record page_env =
  navigate_and_wait :: "exn option"
  ensure_logged_in :: "exn option"
  wait_for_selector :: "exn option"
  wait_and_focus :: "exn option"
  close_modals :: "exn option"
  scroll_page_to_bottom :: "exn option"
  locate_job_links :: "exn + anchor list"

text \<open>What \<open>scrape\<close> does, in order: every awaited call is logged when it is made.\<close>

datatype step =
  Callback cb_call
| Navigate string
| EnsureLoggedIn
| WaitForSelector string nat
| WaitAndFocus nat
| CloseModals
| ScrollPageToBottom int
| ExtractJobUrls int

text \<open>
  A computation takes the log so far and gives the log it leaves, with the value it
  returns (\<open>Inr\<close>) or the exception it raises (\<open>Inl\<close>).
\<close>

type_synonym 'a io = "step list \<Rightarrow> (exn + 'a) \<times> step list"

definition return_val :: "'a \<Rightarrow> 'a io" where
  "return_val x log = (Inr x, log)"

definition raise_exn :: "exn \<Rightarrow> 'a io" where
  "raise_exn e log = (Inl e, log)"

definition then_do :: "'a io \<Rightarrow> ('a \<Rightarrow> 'b io) \<Rightarrow> 'b io" where
  "then_do m f log = (case m log of (Inl e, log') \<Rightarrow> (Inl e, log') | (Inr x, log') \<Rightarrow> f x log')"

text \<open>\<open>try: m except Exception as e: handler(e)\<close>.\<close>

definition try_except :: "'a io \<Rightarrow> (exn \<Rightarrow> 'a io) \<Rightarrow> 'a io" where
  "try_except m handler log =
     (case m log of (Inl e, log') \<Rightarrow> handler e log' | (Inr x, log') \<Rightarrow> (Inr x, log'))"

text \<open>An awaited call with a given outcome.\<close>

definition await :: "step \<Rightarrow> exn option \<Rightarrow> unit io" where
  "await s outcome log = (case outcome of None \<Rightarrow> (Inr (), log @ [s]) | Some e \<Rightarrow> (Inl e, log @ [s]))"

definition saved_jobs_url :: string where
  "saved_jobs_url = ''https://www.linkedin.com/my-items/saved-jobs/''"

text \<open>Line 73: \_extract\_job\_urls catches everything itself, so the call always returns.\<close>

definition await_extract :: "page_env \<Rightarrow> int \<Rightarrow> string list io" where
  "await_extract env limit log =
     (Inr (extract_job_urls (locate_job_links env) limit), log @ [ExtractJobUrls limit])"

text \<open>Lines 61 to 78: the body of the \<open>try\<close>.\<close>

definition scrape_body :: "page_env \<Rightarrow> (cb_call \<Rightarrow> exn option) \<Rightarrow> int \<Rightarrow> int \<Rightarrow> string list io" where
  "scrape_body env cb limit max_scrolls =
     then_do (await (Navigate saved_jobs_url) (navigate_and_wait env)) (\<lambda>_.
     then_do (await (Callback (OnProgress ''Navigated to saved jobs'' 10))
                (cb (OnProgress ''Navigated to saved jobs'' 10))) (\<lambda>_.
     then_do (await EnsureLoggedIn (ensure_logged_in env)) (\<lambda>_.
     then_do (await (WaitForSelector ''main'' 10000) (wait_for_selector env)) (\<lambda>_.
     then_do (await (WaitAndFocus 1) (wait_and_focus env)) (\<lambda>_.
     then_do (await CloseModals (close_modals env)) (\<lambda>_.
     then_do (await (ScrollPageToBottom max_scrolls) (scroll_page_to_bottom env)) (\<lambda>_.
     then_do (await_extract env limit) (\<lambda>job_urls.
     then_do (await (Callback (OnProgress (''Found '' @ str_nat (length job_urls) @ '' saved jobs'') 90))
                (cb (OnProgress (''Found '' @ str_nat (length job_urls) @ '' saved jobs'') 90))) (\<lambda>_.
     then_do (await (Callback (OnComplete ''SavedJobs'' job_urls))
                (cb (OnComplete ''SavedJobs'' job_urls))) (\<lambda>_.
     return_val job_urls))))))))))"

text \<open>Lines 80 to 82: the \<open>except\<close> clause.\<close>

definition scrape_handler :: "(cb_call \<Rightarrow> exn option) \<Rightarrow> exn \<Rightarrow> string list io" where
  "scrape_handler cb e =
     then_do (await (Callback (OnError e)) (cb (OnError e))) (\<lambda>_.
     raise_exn (Exn ScrapingError (''Failed to scrape saved jobs: '' @ str_exn e)))"

text \<open>
  Lines 53 to 82. \<open>pause_time\<close>, a float handed on to the scrolling, is left out; the
  run starts with an empty log.
\<close>

definition scrape ::
  "page_env \<Rightarrow> (cb_call \<Rightarrow> exn option) \<Rightarrow> int \<Rightarrow> int \<Rightarrow> (exn + string list) \<times> step list" where
  "scrape env cb limit max_scrolls =
     then_do (await (Callback (OnStart ''SavedJobs'' saved_jobs_url))
                (cb (OnStart ''SavedJobs'' saved_jobs_url))) (\<lambda>_.
       if limit \<le> 0 then return_val []
       else try_except (scrape_body env cb limit max_scrolls) (scrape_handler cb)) []"

section \<open>Click pagination (scrape\_saved\_jobs.py, main)\<close>

text \<open>
  Lines 70 to 79: one anchor of the current page. The script has its own copy of the
  normalization and tests membership in the list \<open>all_job_urls\<close>; the bare \<open>except\<close>
  is \<open>continue\<close>.
\<close>

definition collect_link :: "anchor \<Rightarrow> string list \<Rightarrow> string list" where
  "collect_link link all_urls =
     (case link of
        Inl e \<Rightarrow> all_urls
      | Inr None \<Rightarrow> all_urls
      | Inr (Some href) \<Rightarrow>
          if href \<noteq> [] \<and> py_in ''/jobs/view/'' href then
            (case clean_url href of
               Inl e \<Rightarrow> all_urls
             | Inr u \<Rightarrow> if u \<notin> set all_urls then all_urls @ [u] else all_urls)
          else all_urls)"

text \<open>Lines 69 to 79: the \<open>for\<close> loop over the anchors of one page.\<close>

fun collect_links :: "anchor list \<Rightarrow> string list \<Rightarrow> string list" where
  "collect_links [] all_urls = all_urls"
| "collect_links (link # links) all_urls = collect_links links (collect_link link all_urls)"

text \<open>
  What the browser answers during one pass of the \<open>while True\<close> loop: the outcome of the
  scroll (line 61), the anchors located (line 65), the count of next buttons (line 83),
  whether the first is disabled (line 87) and the outcome of the click (line 91).
\<close>

record page_view =
  scroll :: "exn option"
  job_links :: "exn + anchor list"
  next_button_count :: "exn + nat"
  is_disabled :: "exn + bool"
  click :: "exn option"

text \<open>
  The calls the loop makes on the browser, logged when they are made, and
  \<open>SawDisabled d\<close>, logged when \<open>is_disabled()\<close> has answered \<open>d\<close>.
\<close>

datatype browser_call = Scroll | LocateLinks | CountNext | IsDisabled | SawDisabled bool | Click

text \<open>
  \<open>Running\<close>: the loop goes on; \<open>LastPage\<close>: it left through one of the two \<open>break\<close>s;
  \<open>Failed e\<close>: a call raised \<open>e\<close>, which leaves the loop for the \<open>except\<close> of line 120.
\<close>

datatype loop_status = Running | LastPage | Failed exn

record pager_state =
  all_job_urls :: "string list"
  page_num :: nat
  calls :: "browser_call list"
  status :: loop_status

text \<open>Lines 58 to 99: one pass of the loop.\<close>

definition visit_page :: "page_view \<Rightarrow> pager_state \<Rightarrow> pager_state" where
  "visit_page v st =
     (let st1 = st\<lparr>calls := calls st @ [Scroll]\<rparr> in
      case scroll v of
        Some e \<Rightarrow> st1\<lparr>status := Failed e\<rparr>
      | None \<Rightarrow>
         (let st2 = st1\<lparr>calls := calls st1 @ [LocateLinks]\<rparr> in
          case job_links v of
            Inl e \<Rightarrow> st2\<lparr>status := Failed e\<rparr>
          | Inr links \<Rightarrow>
             (let st3 = st2\<lparr>all_job_urls := collect_links links (all_job_urls st2),
                            calls := calls st2 @ [CountNext]\<rparr> in
              case next_button_count v of
                Inl e \<Rightarrow> st3\<lparr>status := Failed e\<rparr>
              | Inr n \<Rightarrow>
                  if n > 0 then
                    (let st4 = st3\<lparr>calls := calls st3 @ [IsDisabled]\<rparr> in
                     case is_disabled v of
                       Inl e \<Rightarrow> st4\<lparr>status := Failed e\<rparr>
                     | Inr d \<Rightarrow>
                        (let st5 = st4\<lparr>calls := calls st4 @ [SawDisabled d]\<rparr> in
                         if \<not> d then
                           (case click v of
                              Some e \<Rightarrow> st5\<lparr>calls := calls st5 @ [Click], status := Failed e\<rparr>
                            | None \<Rightarrow> st5\<lparr>calls := calls st5 @ [Click],
                                          page_num := page_num st5 + 1\<rparr>)
                         else st5\<lparr>status := LastPage\<rparr>))
                  else st3\<lparr>status := LastPage\<rparr>)))"

text \<open>
  Lines 57 to 99: \<open>while True\<close>, which need not end. The loop is run for at most
  \<open>fuel\<close> passes; \<open>browser n\<close> is what the browser answers while page \<open>n\<close> is shown.
  A state still \<open>Running\<close> when the fuel is used up is a loop that has not returned.
\<close>

fun main_loop :: "nat \<Rightarrow> (nat \<Rightarrow> page_view) \<Rightarrow> pager_state \<Rightarrow> pager_state" where
  "main_loop 0 browser st = st"
| "main_loop (Suc fuel) browser st =
     (if status st = Running then main_loop fuel browser (visit_page (browser (page_num st)) st)
      else st)"

text \<open>Lines 54 and 55: the state before the loop.\<close>

definition pager_start :: pager_state where
  "pager_start = \<lparr>all_job_urls = [], page_num = 1, calls = [], status = Running\<rparr>"

text \<open>The loop from its start: \<open>None\<close> when it has not returned within the fuel.\<close>

definition scrape_all_pages :: "nat \<Rightarrow> (nat \<Rightarrow> page_view) \<Rightarrow> pager_state option" where
  "scrape_all_pages fuel browser =
     (let st = main_loop fuel browser pager_start
      in if status st = Running then None else Some st)"

section \<open>Login polling (create\_session.py, create\_session)\<close>






section \<open>Scroll pagination\<close>

text \<open>
  Modelled from the spec: the ScrollPager of section 4.4. Its code is
  BaseScraper.scroll\_page\_to\_bottom, in a file that is not among the sources; \<open>scrape\<close>
  only calls it (lines 69 to 71). From READY the pager takes a first sample; each
  iteration issues one scroll, waits and samples again. A count that increased keeps it
  SCROLLING, an unchanged count makes it STABLE, and \<open>max_scrolls\<close> iterations make it
  DONE. The spec does not say what a decreased count does: \<open>decrease_stops\<close> chooses
  between stopping and going on. \<open>sample k\<close> is the \<open>k\<close>-th count sampled, from 0.
\<close>

datatype pager_phase = READY | SCROLLING | STABLE | DONE

record scroll_state =
  phase :: pager_phase
  scrolls :: nat

fun scroll_loop :: "bool \<Rightarrow> (nat \<Rightarrow> nat) \<Rightarrow> nat \<Rightarrow> nat \<Rightarrow> scroll_state" where
  "scroll_loop decrease_stops sample 0 k = \<lparr>phase = DONE, scrolls = k\<rparr>"
| "scroll_loop decrease_stops sample (Suc remaining) k =
     (if sample (Suc k) > sample k then scroll_loop decrease_stops sample remaining (Suc k)
      else if sample (Suc k) = sample k then \<lparr>phase = STABLE, scrolls = Suc k\<rparr>
      else if decrease_stops then \<lparr>phase = DONE, scrolls = Suc k\<rparr>
      else scroll_loop decrease_stops sample remaining (Suc k))"

definition scroll_pager :: "bool \<Rightarrow> (nat \<Rightarrow> nat) \<Rightarrow> nat \<Rightarrow> scroll_state" where
  "scroll_pager decrease_stops sample max_scrolls = scroll_loop decrease_stops sample max_scrolls 0"

section \<open>Vocabulary of the properties\<close>

text \<open>
  A list in first-seen order: every element is kept where it first stands and its later
  repetitions are deleted (\<open>remdups\<close> keeps the last of equal elements, hence the two
  reversals).
\<close>

abbreviation first_seen :: "'a list \<Rightarrow> 'a list" where
  "first_seen xs \<equiv> rev (remdups (rev xs))"

text \<open>The normalized URLs of the anchors of one page, in the order of the anchors.\<close>

definition page_urls :: "page_view \<Rightarrow> string list" where
  "page_urls v = (case job_links v of Inl e \<Rightarrow> [] | Inr links \<Rightarrow> List.map_filter link_url links)"

text \<open>
  Three kinds of page, each read without a failure: the next-page control is present,
  enabled and the click on it succeeds; the control is absent; the control is present
  and disabled.
\<close>

definition page_read :: "page_view \<Rightarrow> bool" where
  "page_read v = (scroll v = None \<and> (case job_links v of Inl e \<Rightarrow> False | Inr links \<Rightarrow> True))"

definition next_enabled :: "page_view \<Rightarrow> bool" where
  "next_enabled v =
     (page_read v \<and> (case next_button_count v of Inl e \<Rightarrow> False | Inr n \<Rightarrow> n > 0)
      \<and> is_disabled v = Inr False \<and> click v = None)"

definition next_absent :: "page_view \<Rightarrow> bool" where
  "next_absent v = (page_read v \<and> next_button_count v = Inr 0)"

definition next_disabled :: "page_view \<Rightarrow> bool" where
  "next_disabled v =
     (page_read v \<and> (case next_button_count v of Inl e \<Rightarrow> False | Inr n \<Rightarrow> n > 0)
      \<and> is_disabled v = Inr True)"

section \<open>Example inputs\<close>

text \<open>
  A saved-jobs list of two pages. The first shows job 2 twice (once with a query string)
  and job 1, and its next button is enabled; the second shows job 1 again and job 3, and
  its next button is disabled.
\<close>

definition two_pages :: "nat \<Rightarrow> page_view" where
  "two_pages n =
     (if n = 1 then
        \<lparr>scroll = None,
         job_links = Inr [Inr (Some ''/jobs/view/2?x=1''), Inr (Some ''/jobs/view/1''),
                          Inr (Some ''/jobs/view/2'')],
         next_button_count = Inr 1, is_disabled = Inr False, click = None\<rparr>
      else
        \<lparr>scroll = None,
         job_links = Inr [Inr (Some ''/jobs/view/1?y=2''), Inr (Some ''/jobs/view/3'')],
         next_button_count = Inr 1, is_disabled = Inr True, click = None\<rparr>)"

text \<open>
  The default callback, which does nothing and returns, and a page on which the wait for
  the \<open>main\<close> selector times out.
\<close>

definition silent :: "cb_call \<Rightarrow> exn option" where
  "silent c = None"

definition selector_times_out :: page_env where
  "selector_times_out =
     \<lparr>navigate_and_wait = None, ensure_logged_in = None,
      wait_for_selector = Some (Exn PlaywrightTimeout ''Timeout 10000ms exceeded.''),
      wait_and_focus = None, close_modals = None, scroll_page_to_bottom = None,
      locate_job_links = Inr []\<rparr>"



definition three_saved_jobs :: page_env where
  "three_saved_jobs =
     \<lparr>navigate_and_wait = None, ensure_logged_in = None, wait_for_selector = None,
      wait_and_focus = None, close_modals = None, scroll_page_to_bottom = None,
      locate_job_links = Inr [Inr (Some ''/jobs/view/2?x=1''), Inr (Some ''/jobs/view/1''),
                              Inr (Some ''/jobs/view/2'')]\<rparr>"


section \<open>Properties of the string operations\<close>

lemma py_in_single: "py_in [c] s \<longleftrightarrow> c \<in> set s"
  by (induction s) auto

lemma py_split_first: "\<exists>ws. py_split sep s = takeWhile (\<lambda>c. c \<noteq> sep) s # ws"
  by (induction s) (auto split: list.splits)

lemma index0_py_split: "index0 (py_split sep s) = Inr (takeWhile (\<lambda>c. c \<noteq> sep) s)"
proof -
  obtain ws where "py_split sep s = takeWhile (\<lambda>c. c \<noteq> sep) s # ws"
    using py_split_first by blast
  then show ?thesis by (simp add: index0_def)
qed

lemma takeWhile_no_sep: "sep \<notin> set s \<Longrightarrow> takeWhile (\<lambda>c. c \<noteq> sep) s = s"
  by (induction s) auto

text \<open>The query string is cut whether the branch of line 109 splits or not.\<close>

lemma clean_url_eq:
  "clean_url href =
     Inr (if prefix ''http'' (takeWhile (\<lambda>c. c \<noteq> CHR ''?'') href)
          then takeWhile (\<lambda>c. c \<noteq> CHR ''?'') href
          else ''https://www.linkedin.com'' @ takeWhile (\<lambda>c. c \<noteq> CHR ''?'') href)"
  by (simp add: clean_url_def py_in_single index0_py_split startswith_def takeWhile_no_sep)

section \<open>Properties of the extraction loops\<close>

lemma remdups_snoc: "remdups (ys @ [x]) = filter (\<lambda>y. y \<noteq> x) (remdups ys) @ [x]"
  by (induction ys) auto

lemma first_seen_Cons: "first_seen (x # xs) = x # filter (\<lambda>y. y \<noteq> x) (first_seen xs)"
  by (simp add: remdups_snoc rev_filter)

lemma filter_first_seen_mem:
  "u \<in> A \<Longrightarrow> filter (\<lambda>v. v \<notin> A) (first_seen (u # cs)) = filter (\<lambda>v. v \<notin> A) (first_seen cs)"
  unfolding first_seen_Cons by (auto intro: filter_cong)

lemma filter_first_seen_new:
  "u \<notin> A \<Longrightarrow> filter (\<lambda>v. v \<notin> A) (first_seen (u # cs)) = u # filter (\<lambda>v. v \<notin> insert u A) (first_seen cs)"
  unfolding first_seen_Cons by (auto intro: filter_cong)

lemma map_filter_Cons_None: "f x = None \<Longrightarrow> List.map_filter f (x # xs) = List.map_filter f xs"
  by (simp add: List.map_filter_def)

lemma map_filter_Cons_Some: "f x = Some y \<Longrightarrow> List.map_filter f (x # xs) = y # List.map_filter f xs"
  by (simp add: List.map_filter_def)

lemma extract_loop_fst:
  "fst (extract_loop limit links (js, set js)) =
     (if limit \<le> int (length js) then js
      else take (nat limit) (js @ filter (\<lambda>u. u \<notin> set js) (first_seen (List.map_filter link_url links))))"
proof (induction links arbitrary: js)
  case Nil
  then show ?case by (simp add: List.map_filter_def)
next
  case (Cons l ls)
  show ?case
  proof (cases "limit \<le> int (length js)")
    case True
    then show ?thesis by simp
  next
    case False
    show ?thesis
    proof (cases "link_url l")
      case None
      with False Cons[of js] show ?thesis by (simp add: map_filter_Cons_None)
    next
      case (Some u)
      show ?thesis
      proof (cases "u \<in> set js")
        case True
        with False Some Cons[of js] show ?thesis
          by (simp add: map_filter_Cons_Some filter_first_seen_mem del: rev.simps)
      next
        case new: False
        have step: "extract_loop limit (l # ls) (js, set js) = extract_loop limit ls (js @ [u], set (js @ [u]))"
          using False Some new by simp
        have cs: "filter (\<lambda>v. v \<notin> set js) (first_seen (List.map_filter link_url (l # ls)))
                  = u # filter (\<lambda>v. v \<notin> set (js @ [u])) (first_seen (List.map_filter link_url ls))"
          using Some new by (simp add: map_filter_Cons_Some filter_first_seen_new del: rev.simps)
        show ?thesis
        proof (cases "limit \<le> int (length (js @ [u]))")
          case True
          with False have "nat limit - length js = Suc 0" by simp
          with True False show ?thesis
            unfolding step cs Cons[of "js @ [u]"] by simp
        next
          case big: False
          then show ?thesis
            unfolding step cs Cons[of "js @ [u]"] using False by simp
        qed
      qed
    qed
  qed
qed

lemma extract_job_urls_eq:
  "extract_job_urls (Inr links) limit = take (nat limit) (first_seen (List.map_filter link_url links))"
  using extract_loop_fst[of limit links "[]"] by (auto simp: extract_job_urls_def)


lemma remdups_append_filter: "remdups (xs @ ys) = filter (\<lambda>x. x \<notin> set ys) (remdups xs) @ remdups ys"
  by (induction xs) auto

lemma first_seen_append: "first_seen (xs @ ys) = first_seen xs @ filter (\<lambda>y. y \<notin> set xs) (first_seen ys)"
  by (simp add: remdups_append_filter rev_filter)

lemma first_seen_distinct: "distinct xs \<Longrightarrow> first_seen xs = xs"
  by (simp add: distinct_remdups_id)

lemma first_seen_absorb: "first_seen (first_seen xs @ ys) = first_seen (xs @ ys)"
  by (simp add: remdups_append2)

lemma collect_link_eq:
  "collect_link link acc =
     (case link_url link of None \<Rightarrow> acc | Some u \<Rightarrow> if u \<in> set acc then acc else acc @ [u])"
  by (auto simp: collect_link_def link_url_def split: sum.splits option.splits)

lemma collect_links_eq:
  "collect_links links acc = acc @ filter (\<lambda>u. u \<notin> set acc) (first_seen (List.map_filter link_url links))"
proof (induction links arbitrary: acc)
  case Nil
  then show ?case by (simp add: List.map_filter_def)
next
  case (Cons l ls)
  show ?case
  proof (cases "link_url l")
    case None
    then show ?thesis using Cons[of acc] by (simp add: collect_link_eq map_filter_Cons_None)
  next
    case (Some u)
    show ?thesis
    proof (cases "u \<in> set acc")
      case True
      with Some Cons[of acc] show ?thesis
        by (simp add: collect_link_eq map_filter_Cons_Some filter_first_seen_mem del: rev.simps)
    next
      case False
      have cs: "filter (\<lambda>v. v \<notin> set acc) (first_seen (List.map_filter link_url (l # ls)))
                  = u # filter (\<lambda>v. v \<notin> set (acc @ [u])) (first_seen (List.map_filter link_url ls))"
        using Some False by (simp add: map_filter_Cons_Some filter_first_seen_new del: rev.simps)
      have "collect_links (l # ls) acc = collect_links ls (acc @ [u])"
        using Some False by (simp add: collect_link_eq)
      then show ?thesis unfolding cs Cons[of "acc @ [u]"] by simp
    qed
  qed
qed

lemma collect_links_first_seen:
  "distinct acc \<Longrightarrow> collect_links links acc = first_seen (acc @ List.map_filter link_url links)"
  by (simp only: collect_links_eq first_seen_append first_seen_distinct)

lemma http_prefix_takeWhile:
  "prefix ''http'' (takeWhile (\<lambda>c. c \<noteq> CHR ''?'') href) \<longleftrightarrow> prefix ''http'' href"
proof
  assume "prefix ''http'' (takeWhile (\<lambda>c. c \<noteq> CHR ''?'') href)"
  then show "prefix ''http'' href"
    using takeWhile_is_prefix prefix_order.order_trans by blast
next
  assume "prefix ''http'' href"
  then obtain r where "href = ''http'' @ r" by (auto simp: prefix_def)
  then show "prefix ''http'' (takeWhile (\<lambda>c. c \<noteq> CHR ''?'') href)" by simp
qed

lemma clean_url_props:
  "clean_url href = Inr u \<Longrightarrow> CHR ''?'' \<notin> set u \<and> prefix ''http'' u"
  by (auto simp: clean_url_eq split: if_splits dest: set_takeWhileD)

lemma link_url_props: "link_url l = Some u \<Longrightarrow> CHR ''?'' \<notin> set u \<and> prefix ''http'' u"
  by (auto simp: link_url_def split: sum.splits option.splits if_splits dest: clean_url_props)

lemma set_map_filter: "set (List.map_filter f xs) = {y. \<exists>x \<in> set xs. f x = Some y}"
  by (induction xs) (auto split: option.splits)

section \<open>Properties of the pagination loop\<close>

lemma distinct_first_seen: "distinct (first_seen xs)"
  by simp

lemma visit_enabled:
  assumes "next_enabled v"
  shows "status (visit_page v st) = status st"
    and "page_num (visit_page v st) = Suc (page_num st)"
    and "calls (visit_page v st) = calls st @ [Scroll, LocateLinks, CountNext, IsDisabled, SawDisabled False, Click]"
    and "distinct (all_job_urls st) \<Longrightarrow> all_job_urls (visit_page v st) = first_seen (all_job_urls st @ page_urls v)"
  using assms
  by (auto simp: visit_page_def next_enabled_def page_read_def page_urls_def Let_def collect_links_first_seen
      simp del: rev_append split: sum.splits option.splits)

lemma visit_last:
  assumes "next_absent v \<or> next_disabled v"
  shows "status (visit_page v st) = LastPage"
    and "page_num (visit_page v st) = page_num st"
    and "count_list (calls (visit_page v st)) Click = count_list (calls st) Click"
    and "distinct (all_job_urls st) \<Longrightarrow> all_job_urls (visit_page v st) = first_seen (all_job_urls st @ page_urls v)"
  using assms
  by (auto simp: visit_page_def next_absent_def next_disabled_def page_read_def page_urls_def Let_def collect_links_first_seen
      simp del: rev_append split: sum.splits option.splits)

lemma main_loop_stopped: "status st \<noteq> Running \<Longrightarrow> main_loop fuel browser st = st"
  by (cases fuel) auto

lemma main_loop_reaches:
  assumes "status st = Running" "distinct (all_job_urls st)" "page_num st \<le> k"
    "\<forall>n. page_num st \<le> n \<and> n < k \<longrightarrow> next_enabled (browser n)"
    "next_absent (browser k) \<or> next_disabled (browser k)"
    "k - page_num st < fuel"
  shows "status (main_loop fuel browser st) = LastPage
       \<and> page_num (main_loop fuel browser st) = k
       \<and> count_list (calls (main_loop fuel browser st)) Click = count_list (calls st) Click + (k - page_num st)
       \<and> all_job_urls (main_loop fuel browser st)
           = first_seen (all_job_urls st @ concat (map (\<lambda>n. page_urls (browser n)) [page_num st..<Suc k]))"
  using assms
proof (induction fuel arbitrary: st)
  case 0
  then show ?case by simp
next
  case (Suc fuel)
  let ?v = "browser (page_num st)"
  let ?st = "visit_page ?v st"
  have step: "main_loop (Suc fuel) browser st = main_loop fuel browser ?st"
    using Suc.prems(1) by simp
  show ?case
  proof (cases "page_num st = k")
    case True
    then have last: "next_absent ?v \<or> next_disabled ?v" using Suc.prems(5) by simp
    have "main_loop fuel browser ?st = ?st"
      by (rule main_loop_stopped) (simp add: visit_last(1)[OF last])
    with step have eq: "main_loop (Suc fuel) browser st = ?st" by simp
    show ?thesis
      unfolding eq using True visit_last[OF last, of st] Suc.prems(2)
      by (simp del: rev_append)
  next
    case False
    with Suc.prems(3) have lt: "page_num st < k" by simp
    then have en: "next_enabled ?v" using Suc.prems(4) by simp
    note ve = visit_enabled[OF en, of st]
    have ih: "status (main_loop fuel browser ?st) = LastPage
       \<and> page_num (main_loop fuel browser ?st) = k
       \<and> count_list (calls (main_loop fuel browser ?st)) Click = count_list (calls ?st) Click + (k - page_num ?st)
       \<and> all_job_urls (main_loop fuel browser ?st)
           = first_seen (all_job_urls ?st @ concat (map (\<lambda>n. page_urls (browser n)) [page_num ?st..<Suc k]))"
    proof (rule Suc.IH)
      show "status ?st = Running" using ve(1) Suc.prems(1) by simp
      show "distinct (all_job_urls ?st)" using ve(4)[OF Suc.prems(2)] by simp
      show "page_num ?st \<le> k" using ve(2) lt by simp
      show "\<forall>n. page_num ?st \<le> n \<and> n < k \<longrightarrow> next_enabled (browser n)"
        using ve(2) Suc.prems(4) by simp
      show "next_absent (browser k) \<or> next_disabled (browser k)" by (rule Suc.prems(5))
      show "k - page_num ?st < fuel" using ve(2) Suc.prems(6) lt by simp
    qed
    have upt: "[page_num st..<Suc k] = page_num st # [Suc (page_num st)..<Suc k]"
      using lt by (simp add: upt_conv_Cons del: upt_Suc)
    have urls: "first_seen (all_job_urls ?st @ concat (map (\<lambda>n. page_urls (browser n)) [page_num ?st..<Suc k]))
        = first_seen (all_job_urls st @ concat (map (\<lambda>n. page_urls (browser n)) [page_num st..<Suc k]))"
      unfolding ve(2) ve(4)[OF Suc.prems(2)] upt
      using first_seen_absorb[of "all_job_urls st @ page_urls ?v"] by (simp del: rev_append upt_Suc)
    show ?thesis
      unfolding step using ih urls ve(2) ve(3) lt by (simp del: rev_append upt_Suc)
  qed
qed


lemma visit_page_urls:
  "all_job_urls (visit_page v st) = all_job_urls st
   \<or> (\<exists>ls. job_links v = Inr ls \<and> all_job_urls (visit_page v st) = collect_links ls (all_job_urls st))"
  by (auto simp: visit_page_def Let_def split: sum.splits option.splits)

lemma main_loop_urls_invariant:
  assumes "P (all_job_urls st)" and "\<And>ls acc. P acc \<Longrightarrow> P (collect_links ls acc)"
  shows "P (all_job_urls (main_loop fuel browser st))"
  using assms(1)
proof (induction fuel arbitrary: st)
  case 0
  then show ?case by simp
next
  case (Suc fuel)
  have "P (all_job_urls (visit_page (browser (page_num st)) st))"
    using visit_page_urls[of "browser (page_num st)" st] Suc.prems assms(2) by auto
  then show ?case using Suc by simp
qed

lemma distinct_collect_links: "distinct acc \<Longrightarrow> distinct (collect_links ls acc)"
  by (simp add: collect_links_first_seen del: rev_append)

lemma set_collect_links:
  "set (collect_links ls acc) = set acc \<union> {u. \<exists>l \<in> set ls. link_url l = Some u}"
  by (auto simp: collect_links_eq set_map_filter)

lemma visit_page_calls:
  assumes "SawDisabled True \<notin> set (calls st)"
  shows "(status (visit_page v st) = Running \<longrightarrow> SawDisabled True \<notin> set (calls (visit_page v st)))
       \<and> Click \<notin> set (dropWhile (\<lambda>c. c \<noteq> SawDisabled True) (calls (visit_page v st)))"
  using assms
  by (auto simp: visit_page_def Let_def dropWhile_append split: sum.splits option.splits)

lemma main_loop_calls:
  assumes "status st = Running \<longrightarrow> SawDisabled True \<notin> set (calls st)"
    and "Click \<notin> set (dropWhile (\<lambda>c. c \<noteq> SawDisabled True) (calls st))"
  shows "Click \<notin> set (dropWhile (\<lambda>c. c \<noteq> SawDisabled True) (calls (main_loop fuel browser st)))"
  using assms
proof (induction fuel arbitrary: st)
  case 0
  then show ?case by simp
next
  case (Suc fuel)
  show ?case
  proof (cases "status st = Running")
    case True
    with Suc.prems have "SawDisabled True \<notin> set (calls st)" by simp
    from visit_page_calls[OF this, of "browser (page_num st)"] True Suc.IH
    show ?thesis by simp
  next
    case False
    with Suc.prems show ?thesis by simp
  qed
qed

lemma map_filter_stale:
  "List.map_filter link_url (xs @ Inl e # ys) = List.map_filter link_url (xs @ ys)"
  by (induction xs) (auto simp: link_url_def split: option.splits)

section \<open>Properties of the scrape operation\<close>




lemma scrape_nonpositive:
  "limit \<le> 0 \<Longrightarrow>
     scrape env cb limit max_scrolls
       = ((case cb (OnStart ''SavedJobs'' saved_jobs_url) of None \<Rightarrow> Inr [] | Some e \<Rightarrow> Inl e),
          [Callback (OnStart ''SavedJobs'' saved_jobs_url)])"
  by (simp add: scrape_def then_do_def await_def return_val_def split: option.splits)

lemma scrape_log_extract:
  "ExtractJobUrls l \<in> set (snd (scrape env cb limit max_scrolls)) \<Longrightarrow> 0 < limit \<and> l = limit"
proof (cases "limit \<le> 0")
  case True
  assume "ExtractJobUrls l \<in> set (snd (scrape env cb limit max_scrolls))"
  with True show ?thesis by (simp add: scrape_nonpositive)
next
  case False
  assume "ExtractJobUrls l \<in> set (snd (scrape env cb limit max_scrolls))"
  with False show ?thesis
    by (auto simp: scrape_def scrape_body_def scrape_handler_def then_do_def await_def
        try_except_def await_extract_def return_val_def raise_exn_def split: option.splits)
qed

lemma scrape_returns:
  "fst (scrape env cb limit max_scrolls) = Inr urls \<Longrightarrow>
     urls = [] \<or> urls = extract_job_urls (locate_job_links env) limit"
proof (cases "limit \<le> 0")
  case True
  assume "fst (scrape env cb limit max_scrolls) = Inr urls"
  with True show ?thesis by (auto simp: scrape_nonpositive split: option.splits)
next
  case False
  assume "fst (scrape env cb limit max_scrolls) = Inr urls"
  with False show ?thesis
    by (auto simp: scrape_def scrape_body_def scrape_handler_def then_do_def await_def
        try_except_def await_extract_def return_val_def raise_exn_def split: option.splits)
qed

lemma length_extract_le: "length (extract_job_urls located limit) \<le> nat limit"
  by (cases located) (simp_all add: extract_job_urls_def extract_job_urls_eq[unfolded extract_job_urls_def, simplified] del: rev_append)

lemma str_nat_1: "str_nat (Suc 0) = ''1''"
  by (subst str_nat.simps) simp

lemma scrape_three_saved_jobs:
  "scrape three_saved_jobs silent 1 5
     = (Inr [''https://www.linkedin.com/jobs/view/2''],
        [Callback (OnStart ''SavedJobs'' saved_jobs_url), Navigate saved_jobs_url,
         Callback (OnProgress ''Navigated to saved jobs'' 10), EnsureLoggedIn,
         WaitForSelector ''main'' 10000, WaitAndFocus 1, CloseModals,
         ScrollPageToBottom 5, ExtractJobUrls 1,
         Callback (OnProgress ''Found 1 saved jobs'' 90),
         Callback (OnComplete ''SavedJobs'' [''https://www.linkedin.com/jobs/view/2''])])"
proof -
  have ex: "extract_job_urls (locate_job_links three_saved_jobs) 1 = [''https://www.linkedin.com/jobs/view/2'']"
    by (simp add: three_saved_jobs_def extract_job_urls_def link_url_def clean_url_def
        startswith_def index0_def)
  have ae: "await_extract three_saved_jobs 1 log
      = (Inr [''https://www.linkedin.com/jobs/view/2''], log @ [ExtractJobUrls 1])" for log
    by (simp add: await_extract_def ex)
  have fields: "navigate_and_wait three_saved_jobs = None" "ensure_logged_in three_saved_jobs = None"
    "wait_for_selector three_saved_jobs = None" "wait_and_focus three_saved_jobs = None"
    "close_modals three_saved_jobs = None" "scroll_page_to_bottom three_saved_jobs = None"
    by (simp_all add: three_saved_jobs_def)
  show ?thesis
    by (simp add: scrape_def scrape_body_def try_except_def then_do_def await_def
        return_val_def silent_def ae fields str_nat_1)
qed

section \<open>Properties of the login polling loop\<close>



section \<open>Properties of the scroll pager\<close>

lemma scroll_loop_bound: "scrolls (scroll_loop ds s r k) \<le> k + r"
proof (induction r arbitrary: k)
  case 0
  then show ?case by simp
next
  case (Suc r)
  show ?case using Suc[of "Suc k"] by auto
qed

lemma scroll_loop_stops_at_equal:
  "k \<le> j \<Longrightarrow> j < k + r \<Longrightarrow> s (Suc j) = s j \<Longrightarrow> scrolls (scroll_loop ds s r k) \<le> Suc j"
proof (induction r arbitrary: k)
  case 0
  then show ?case by simp
next
  case (Suc r)
  show ?case
  proof (cases "j = k")
    case True
    with Suc.prems show ?thesis by simp
  next
    case False
    with Suc.prems have "Suc k \<le> j" "j < Suc k + r" by simp_all
    from Suc.IH[OF this Suc.prems(3)] Suc.prems(1) show ?thesis by auto
  qed
qed

lemma scroll_loop_growing:
  "(\<forall>i. k \<le> i \<and> i < k + n \<longrightarrow> s i < s (Suc i)) \<Longrightarrow>
   scroll_loop ds s (n + r) k = scroll_loop ds s r (k + n)"
proof (induction n arbitrary: k)
  case 0
  then show ?case by simp
next
  case (Suc n)
  then have "s k < s (Suc k)" by simp
  moreover have "\<forall>i. Suc k \<le> i \<and> i < Suc k + n \<longrightarrow> s i < s (Suc i)" using Suc.prems by simp
  ultimately show ?case using Suc.IH[of "Suc k"] by simp
qed

section \<open>The example inputs evaluated\<close>

lemma two_pages_1: "next_enabled (two_pages 1)"
  by (simp add: two_pages_def next_enabled_def page_read_def)

lemma two_pages_2: "next_disabled (two_pages 2)"
  by (simp add: two_pages_def next_disabled_def page_read_def)

lemma two_pages_below: "\<forall>n. 1 \<le> n \<and> n < 2 \<longrightarrow> next_enabled (two_pages n)"
proof (intro allI impI)
  fix n :: nat
  assume "1 \<le> n \<and> n < 2"
  then have "n = 1" by arith
  then show "next_enabled (two_pages n)" using two_pages_1 by simp
qed

lemma two_pages_urls:
  "concat (map (\<lambda>n. page_urls (two_pages n)) [1..<Suc 2])
   = [''https://www.linkedin.com/jobs/view/2'', ''https://www.linkedin.com/jobs/view/1'',
      ''https://www.linkedin.com/jobs/view/2'', ''https://www.linkedin.com/jobs/view/1'',
      ''https://www.linkedin.com/jobs/view/3'']"
proof -
  have "[1..<Suc 2] = [1, 2]" by (simp add: upt_rec)
  then show ?thesis
    by (simp add: two_pages_def page_urls_def link_url_def clean_url_def startswith_def index0_def)
qed

section \<open>The claims\<close>

text \<open>
  C1. For every sequence of anchor elements scanned in one run, the returned list of job
  URLs contains each normalized URL at most once, and the URLs appear in first-seen
  order, whatever the duplicates or the order of the input. Within one page: the list of
  the extractor is duplicate-free, and it is the first \<open>limit\<close> entries of the
  normalized URLs of the anchors in first-seen order. Across pages: the accumulator of
  the click pagination is duplicate-free after any number of passes, and when the loop
  ends on page \<open>k\<close> it is the first-seen order of the URLs of pages 1 to \<open>k\<close>, read one
  page after the other.
\<close>

theorem dedup_first_seen_order:
  "distinct (extract_job_urls located limit)
   \<and> extract_job_urls (Inr links) limit
       = take (nat limit) (first_seen (List.map_filter link_url links))
   \<and> distinct (all_job_urls (main_loop fuel browser pager_start))
   \<and> (1 \<le> k \<and> (\<forall>n. 1 \<le> n \<and> n < k \<longrightarrow> next_enabled (browser n))
        \<and> (next_absent (browser k) \<or> next_disabled (browser k)) \<and> k \<le> fuel
      \<longrightarrow> all_job_urls (main_loop fuel browser pager_start)
            = first_seen (concat (map (\<lambda>n. page_urls (browser n)) [1..<Suc k])))"
proof -
  have a: "distinct (extract_job_urls located limit)"
  proof (cases located)
    case (Inl e)
    then show ?thesis by (simp add: extract_job_urls_def)
  next
    case (Inr links)
    then show ?thesis by (simp add: extract_job_urls_eq del: rev_append)
  qed
  have c: "distinct (all_job_urls (main_loop fuel browser pager_start))"
    by (rule main_loop_urls_invariant) (simp_all add: pager_start_def distinct_collect_links)
  have d: "all_job_urls (main_loop fuel browser pager_start)
            = first_seen (concat (map (\<lambda>n. page_urls (browser n)) [1..<Suc k]))"
    if "1 \<le> k" "\<forall>n. 1 \<le> n \<and> n < k \<longrightarrow> next_enabled (browser n)"
       "next_absent (browser k) \<or> next_disabled (browser k)" "k \<le> fuel"
    using main_loop_reaches[of pager_start k browser fuel] that
    by (simp add: pager_start_def del: rev_append upt_Suc)
  show ?thesis using a c d extract_job_urls_eq by blast
qed

text \<open>
  C1 on the two example pages: job 2, job 1 and job 3, each once, in the order in which
  they were first seen.
\<close>

theorem dedup_first_seen_order_witness:
  "next_enabled (two_pages 1) \<and> next_disabled (two_pages 2)
   \<and> all_job_urls (main_loop 2 two_pages pager_start)
       = [''https://www.linkedin.com/jobs/view/2'', ''https://www.linkedin.com/jobs/view/1'',
          ''https://www.linkedin.com/jobs/view/3'']
   \<and> distinct (all_job_urls (main_loop 2 two_pages pager_start))"
proof -
  have hyp: "1 \<le> (2::nat) \<and> (\<forall>n. 1 \<le> n \<and> n < 2 \<longrightarrow> next_enabled (two_pages n))
        \<and> (next_absent (two_pages 2) \<or> next_disabled (two_pages 2)) \<and> (2::nat) \<le> 2"
    using two_pages_below two_pages_2 by simp
  have "all_job_urls (main_loop 2 two_pages pager_start)
          = first_seen (concat (map (\<lambda>n. page_urls (two_pages n)) [1..<Suc 2]))
        \<and> distinct (all_job_urls (main_loop 2 two_pages pager_start))"
    using dedup_first_seen_order[of "Inr []" 0 "[]" 2 two_pages 2] hyp by blast
  then show ?thesis
    unfolding two_pages_urls using two_pages_1 two_pages_2 by simp
qed

text \<open>
  C2. For every limit and every sequence of matching anchors, the list returned by the
  extractor has length at most \<open>limit\<close>; and whenever the number of distinct normalized
  matching URLs exceeds \<open>limit\<close>, exactly \<open>limit\<close> URLs are returned, namely the
  earliest-seen ones. The limit is a maximum count: \<open>scrape\<close> calls the extractor only
  with a positive limit, the very one it was given (for a limit of 0 or less it returns
  the empty list itself), and the list \<open>scrape\<close> returns is within the limit too.
\<close>

theorem limit_bound:
  "length (extract_job_urls located limit) \<le> nat limit
   \<and> (0 \<le> limit \<longrightarrow> int (length (extract_job_urls located limit)) \<le> limit)
   \<and> (0 \<le> limit \<and> limit < int (card (set (List.map_filter link_url links)))
        \<longrightarrow> int (length (extract_job_urls (Inr links) limit)) = limit
          \<and> extract_job_urls (Inr links) limit
              = take (nat limit) (first_seen (List.map_filter link_url links)))
   \<and> (ExtractJobUrls l \<in> set (snd (scrape env cb limit max_scrolls)) \<longrightarrow> 0 < limit \<and> l = limit)
   \<and> (fst (scrape env cb limit max_scrolls) = Inr urls \<longrightarrow> length urls \<le> nat limit)"
proof -
  have len: "length (first_seen xs) = card (set xs)" for xs :: "string list"
    using length_remdups_card_conv[of "rev xs"] by simp
  have a: "int (length (extract_job_urls located limit)) \<le> limit" if "0 \<le> limit"
    using that length_extract_le[of located limit] by simp
  have b: "int (length (extract_job_urls (Inr links) limit)) = limit"
    if "0 \<le> limit" "limit < int (card (set (List.map_filter link_url links)))"
    using that len[of "List.map_filter link_url links"]
    by (simp add: extract_job_urls_eq del: rev_append)
  have c: "0 < limit \<and> l = limit"
    if "ExtractJobUrls l \<in> set (snd (scrape env cb limit max_scrolls))"
    using that by (rule scrape_log_extract)
  have d: "length urls \<le> nat limit" if "fst (scrape env cb limit max_scrolls) = Inr urls"
    using scrape_returns[OF that] length_extract_le[of "locate_job_links env" limit] by auto
  show ?thesis using length_extract_le a b c d extract_job_urls_eq by blast
qed

text \<open>
  C2 at limit 1 on three anchors with two distinct URLs: the first-seen one is returned,
  by the extractor and by a whole run of \<open>scrape\<close>.
\<close>

theorem limit_bound_witness:
  "(0::int) \<le> 1
   \<and> (1::int) < int (card (set (List.map_filter link_url
         [Inr (Some ''/jobs/view/2?x=1''), Inr (Some ''/jobs/view/1''), Inr (Some ''/jobs/view/2'')])))
   \<and> extract_job_urls
        (Inr [Inr (Some ''/jobs/view/2?x=1''), Inr (Some ''/jobs/view/1''), Inr (Some ''/jobs/view/2'')]) 1
      = [''https://www.linkedin.com/jobs/view/2'']
   \<and> int (length (extract_job_urls
        (Inr [Inr (Some ''/jobs/view/2?x=1''), Inr (Some ''/jobs/view/1''), Inr (Some ''/jobs/view/2'')]) 1)) = 1
   \<and> ExtractJobUrls 1 \<in> set (snd (scrape three_saved_jobs silent 1 5))
   \<and> fst (scrape three_saved_jobs silent 1 5) = Inr [''https://www.linkedin.com/jobs/view/2'']
   \<and> length [''https://www.linkedin.com/jobs/view/2''] \<le> nat 1"
proof -
  let ?links = "[Inr (Some ''/jobs/view/2?x=1''), Inr (Some ''/jobs/view/1''), Inr (Some ''/jobs/view/2'')] :: anchor list"
  have cs: "List.map_filter link_url ?links
      = [''https://www.linkedin.com/jobs/view/2'', ''https://www.linkedin.com/jobs/view/1'',
         ''https://www.linkedin.com/jobs/view/2'']"
    by (simp add: link_url_def clean_url_def startswith_def index0_def)
  have hyp: "(0::int) \<le> 1 \<and> (1::int) < int (card (set (List.map_filter link_url ?links)))"
    unfolding cs by (simp add: card_insert_if)
  have run: "ExtractJobUrls 1 \<in> set (snd (scrape three_saved_jobs silent 1 5))
      \<and> fst (scrape three_saved_jobs silent 1 5) = Inr [''https://www.linkedin.com/jobs/view/2'']"
    by (simp add: scrape_three_saved_jobs)
  have "int (length (extract_job_urls (Inr ?links) 1)) = 1
      \<and> extract_job_urls (Inr ?links) 1 = take (nat 1) (first_seen (List.map_filter link_url ?links))
      \<and> length [''https://www.linkedin.com/jobs/view/2''] \<le> nat 1"
    using limit_bound[where limit = 1 and located = "Inr ?links" and links = ?links
        and env = three_saved_jobs and cb = silent and max_scrolls = 5 and l = 1
        and urls = "[''https://www.linkedin.com/jobs/view/2'']"] hyp run
    by blast
  then show ?thesis using hyp run unfolding cs by simp
qed

text \<open>
  C3. Given exactly the three anchor hrefs \<open>/jobs/view/111?pos=1\<close>,
  \<open>/jobs/view/111?pos=2\<close> and \<open>/jobs/view/222\<close>, extraction with limit 10 yields exactly
  the two-element list of the site's base origin followed by \<open>/jobs/view/111\<close> and by
  \<open>/jobs/view/222\<close>: query strings are stripped and relative paths are qualified
  against the site's base origin, which is \<open>https://www.linkedin.com\<close> (line 111). The
  accumulator of the pagination script gives the same list.
\<close>

theorem example_three_anchors:
  "extract_job_urls
     (Inr [Inr (Some ''/jobs/view/111?pos=1''), Inr (Some ''/jobs/view/111?pos=2''),
           Inr (Some ''/jobs/view/222'')]) 10
   = [''https://www.linkedin.com/jobs/view/111'', ''https://www.linkedin.com/jobs/view/222'']
   \<and> collect_links
     [Inr (Some ''/jobs/view/111?pos=1''), Inr (Some ''/jobs/view/111?pos=2''),
      Inr (Some ''/jobs/view/222'')] []
   = [''https://www.linkedin.com/jobs/view/111'', ''https://www.linkedin.com/jobs/view/222'']"
  by (simp add: extract_job_urls_def link_url_def collect_link_def clean_url_def
        startswith_def index0_def)

text \<open>
  C4. The click-pagination loop terminates when the next-page control is absent or when
  it is present but disabled, and it never issues a click after observing a disabled
  next-page control. Termination: when pages 1 to \<open>k - 1\<close> are read and advanced from,
  and on page \<open>k\<close> the control is absent or disabled, then with any fuel of at least
  \<open>k\<close> passes the loop returns, on page \<open>k\<close>, through a \<open>break\<close>, having clicked
  \<open>k - 1\<close> times. Safety: after any number of passes, on any browser, no \<open>Click\<close>
  stands in the log of calls after an answer \<open>True\<close> of \<open>is_disabled()\<close>.
\<close>

theorem click_pager_terminates:
  "(1 \<le> k \<and> (\<forall>n. 1 \<le> n \<and> n < k \<longrightarrow> next_enabled (browser n))
      \<and> (next_absent (browser k) \<or> next_disabled (browser k)) \<and> k \<le> fuel
    \<longrightarrow> (\<exists>st. scrape_all_pages fuel browser = Some st \<and> status st = LastPage
              \<and> page_num st = k \<and> count_list (calls st) Click = k - 1))
   \<and> Click \<notin> set (dropWhile (\<lambda>c. c \<noteq> SawDisabled True)
                        (calls (main_loop fuel browser pager_start)))"
proof -
  have a: "\<exists>st. scrape_all_pages fuel browser = Some st \<and> status st = LastPage
              \<and> page_num st = k \<and> count_list (calls st) Click = k - 1"
    if "1 \<le> k" "\<forall>n. 1 \<le> n \<and> n < k \<longrightarrow> next_enabled (browser n)"
       "next_absent (browser k) \<or> next_disabled (browser k)" "k \<le> fuel"
    using main_loop_reaches[of pager_start k browser fuel] that
    by (simp add: scrape_all_pages_def pager_start_def Let_def del: rev_append upt_Suc)
  have b: "Click \<notin> set (dropWhile (\<lambda>c. c \<noteq> SawDisabled True)
                        (calls (main_loop fuel browser pager_start)))"
    by (rule main_loop_calls) (simp_all add: pager_start_def)
  show ?thesis using a b by blast
qed

text \<open>C4 on the two example pages: the loop returns on page 2 after one click.\<close>

theorem click_pager_terminates_witness:
  "next_enabled (two_pages 1) \<and> next_disabled (two_pages 2)
   \<and> map_option status (scrape_all_pages 5 two_pages) = Some LastPage
   \<and> map_option page_num (scrape_all_pages 5 two_pages) = Some 2
   \<and> map_option (\<lambda>st. count_list (calls st) Click) (scrape_all_pages 5 two_pages) = Some 1"
proof -
  have hyp: "1 \<le> (2::nat) \<and> (\<forall>n. 1 \<le> n \<and> n < 2 \<longrightarrow> next_enabled (two_pages n))
        \<and> (next_absent (two_pages 2) \<or> next_disabled (two_pages 2)) \<and> (2::nat) \<le> 5"
    using two_pages_below two_pages_2 by simp
  have "\<exists>st. scrape_all_pages 5 two_pages = Some st \<and> status st = LastPage
              \<and> page_num st = 2 \<and> count_list (calls st) Click = 2 - 1"
    using click_pager_terminates[of 2 two_pages 5] hyp by blast
  then show ?thesis using two_pages_1 two_pages_2 by auto
qed







text \<open>
  C7. For every anchor element whose individual extraction fails (a stale handle: the
  read of its href raises), the failure is swallowed: the element is skipped, the loop
  continues with the remaining elements, and the run never aborts because of it. With the
  unreadable anchor anywhere among the anchors, the extractor, the per-page loop of the
  pagination script, the whole \<open>scrape\<close> (result and log of calls) and a whole pass of
  the pagination loop give what they give without it.
\<close>

theorem unreadable_anchor_skipped:
  "extract_job_urls (Inr (xs @ Inl e # ys)) limit = extract_job_urls (Inr (xs @ ys)) limit
   \<and> collect_links (xs @ Inl e # ys) acc = collect_links (xs @ ys) acc
   \<and> scrape (env\<lparr>locate_job_links := Inr (xs @ Inl e # ys)\<rparr>) cb limit max_scrolls
       = scrape (env\<lparr>locate_job_links := Inr (xs @ ys)\<rparr>) cb limit max_scrolls
   \<and> visit_page (v\<lparr>job_links := Inr (xs @ Inl e # ys)\<rparr>) st
       = visit_page (v\<lparr>job_links := Inr (xs @ ys)\<rparr>) st"
proof -
  have a: "extract_job_urls (Inr (xs @ Inl e # ys)) limit = extract_job_urls (Inr (xs @ ys)) limit"
    by (simp only: extract_job_urls_eq map_filter_stale)
  have b: "collect_links (xs @ Inl e # ys) acc = collect_links (xs @ ys) acc" for acc
    by (simp only: collect_links_eq map_filter_stale)
  have c: "scrape (env\<lparr>locate_job_links := Inr (xs @ Inl e # ys)\<rparr>) cb limit max_scrolls
       = scrape (env\<lparr>locate_job_links := Inr (xs @ ys)\<rparr>) cb limit max_scrolls"
  proof -
    have "await_extract (env\<lparr>locate_job_links := Inr (xs @ Inl e # ys)\<rparr>) limit
        = await_extract (env\<lparr>locate_job_links := Inr (xs @ ys)\<rparr>) limit"
      by (rule ext) (simp add: await_extract_def a)
    then show ?thesis by (simp add: scrape_def scrape_body_def)
  qed
  have d: "visit_page (v\<lparr>job_links := Inr (xs @ Inl e # ys)\<rparr>) st
       = visit_page (v\<lparr>job_links := Inr (xs @ ys)\<rparr>) st"
    by (simp add: visit_page_def Let_def b split: option.splits sum.splits)
  show ?thesis using a b c d by blast
qed

text \<open>C7 with a stale handle between two readable anchors.\<close>

theorem unreadable_anchor_skipped_witness:
  "extract_job_urls
     (Inr [Inr (Some ''/jobs/view/1''), Inl (Exn PlaywrightError ''stale element''),
           Inr (Some ''/jobs/view/2'')]) 10
   = [''https://www.linkedin.com/jobs/view/1'', ''https://www.linkedin.com/jobs/view/2'']
   \<and> collect_links
     [Inr (Some ''/jobs/view/1''), Inl (Exn PlaywrightError ''stale element''),
      Inr (Some ''/jobs/view/2'')] []
   = [''https://www.linkedin.com/jobs/view/1'', ''https://www.linkedin.com/jobs/view/2'']"
proof -
  have "extract_job_urls (Inr [Inr (Some ''/jobs/view/1''), Inr (Some ''/jobs/view/2'')]) 10
      = [''https://www.linkedin.com/jobs/view/1'', ''https://www.linkedin.com/jobs/view/2'']"
    by (simp add: extract_job_urls_def link_url_def clean_url_def startswith_def index0_def)
  moreover have "collect_links [Inr (Some ''/jobs/view/1''), Inr (Some ''/jobs/view/2'')] []
      = [''https://www.linkedin.com/jobs/view/1'', ''https://www.linkedin.com/jobs/view/2'']"
    by (simp add: collect_link_def clean_url_def startswith_def index0_def)
  ultimately show ?thesis
    using unreadable_anchor_skipped
      [of "[Inr (Some ''/jobs/view/1'')]" "Exn PlaywrightError ''stale element''"
          "[Inr (Some ''/jobs/view/2'')]" 10 "[]"]
    by simp
qed

text \<open>
  C8 (as amended). The scroll-pagination loop terminates within \<open>max_scrolls\<close>
  iterations even if the sampled item count never stabilizes, and it stops as soon as
  two consecutive samples report equal item counts, which is strictly earlier whenever
  the equal sample is taken before the last permitted iteration. The scrolls issued are at most
  \<open>max_scrolls\<close>; when sample \<open>k + 1\<close> equals sample \<open>k\<close>, at most \<open>k + 1\<close> scrolls
  are issued, which is fewer than \<open>max_scrolls\<close> when \<open>k + 1 < max_scrolls\<close>; when the
  counts grow up to sample \<open>k\<close> and then stay, the pager is STABLE after exactly
  \<open>k + 1\<close> scrolls; when they grow throughout, it is DONE after \<open>max_scrolls\<close> scrolls.
  All of it holds for either treatment of a decreased count.
\<close>

theorem scroll_pager_terminates:
  "scrolls (scroll_pager decrease_stops sample max_scrolls) \<le> max_scrolls
   \<and> (k < max_scrolls \<and> sample (Suc k) = sample k
        \<longrightarrow> scrolls (scroll_pager decrease_stops sample max_scrolls) \<le> Suc k)
   \<and> (Suc k < max_scrolls \<and> sample (Suc k) = sample k
        \<longrightarrow> scrolls (scroll_pager decrease_stops sample max_scrolls) < max_scrolls)
   \<and> (k < max_scrolls \<and> (\<forall>i<k. sample i < sample (Suc i)) \<and> sample (Suc k) = sample k
        \<longrightarrow> scroll_pager decrease_stops sample max_scrolls = \<lparr>phase = STABLE, scrolls = Suc k\<rparr>)
   \<and> ((\<forall>i<max_scrolls. sample i < sample (Suc i))
        \<longrightarrow> scroll_pager decrease_stops sample max_scrolls = \<lparr>phase = DONE, scrolls = max_scrolls\<rparr>)"
proof -
  have a: "scrolls (scroll_pager decrease_stops sample max_scrolls) \<le> max_scrolls"
    using scroll_loop_bound[of decrease_stops sample max_scrolls 0] by (simp add: scroll_pager_def)
  have b: "scrolls (scroll_pager decrease_stops sample max_scrolls) \<le> Suc k"
    if "k < max_scrolls" "sample (Suc k) = sample k"
  proof -
    have "0 \<le> k" by simp
    moreover have "k < 0 + max_scrolls" using that(1) by simp
    ultimately show ?thesis
      unfolding scroll_pager_def using that(2) by (rule scroll_loop_stops_at_equal)
  qed
  have c: "scrolls (scroll_pager decrease_stops sample max_scrolls) < max_scrolls"
    if "Suc k < max_scrolls" "sample (Suc k) = sample k"
  proof -
    have "k < max_scrolls" using that(1) by simp
    from b[OF this that(2)] that(1) show ?thesis by linarith
  qed
  have d: "scroll_pager decrease_stops sample max_scrolls = \<lparr>phase = STABLE, scrolls = Suc k\<rparr>"
    if "k < max_scrolls" "\<forall>i<k. sample i < sample (Suc i)" "sample (Suc k) = sample k"
  proof -
    have "k < max_scrolls" by (rule that(1))
    then obtain r where "max_scrolls = Suc (k + r)" using less_imp_Suc_add by blast
    then have m: "max_scrolls = k + Suc r" by simp
    have g: "\<forall>i. 0 \<le> i \<and> i < 0 + k \<longrightarrow> sample i < sample (Suc i)" using that(2) by simp
    have "scroll_loop decrease_stops sample (k + Suc r) 0 = scroll_loop decrease_stops sample (Suc r) (0 + k)"
      by (rule scroll_loop_growing[OF g])
    also have "\<dots> = \<lparr>phase = STABLE, scrolls = Suc k\<rparr>"
      using that(3) by simp
    finally show ?thesis unfolding scroll_pager_def m .
  qed
  have e: "scroll_pager decrease_stops sample max_scrolls = \<lparr>phase = DONE, scrolls = max_scrolls\<rparr>"
    if "\<forall>i<max_scrolls. sample i < sample (Suc i)"
  proof -
    have g: "\<forall>i. 0 \<le> i \<and> i < 0 + max_scrolls \<longrightarrow> sample i < sample (Suc i)" using that by simp
    have "scroll_loop decrease_stops sample (max_scrolls + 0) 0 = scroll_loop decrease_stops sample 0 (0 + max_scrolls)"
      by (rule scroll_loop_growing[OF g])
    then show ?thesis by (simp add: scroll_pager_def)
  qed
  show ?thesis
  proof (intro conjI impI)
    show "scrolls (scroll_pager decrease_stops sample max_scrolls) \<le> max_scrolls" by (rule a)
  next
    assume "k < max_scrolls \<and> sample (Suc k) = sample k"
    then show "scrolls (scroll_pager decrease_stops sample max_scrolls) \<le> Suc k" using b by simp
  next
    assume "Suc k < max_scrolls \<and> sample (Suc k) = sample k"
    then show "scrolls (scroll_pager decrease_stops sample max_scrolls) < max_scrolls" using c by simp
  next
    assume "k < max_scrolls \<and> (\<forall>i<k. sample i < sample (Suc i)) \<and> sample (Suc k) = sample k"
    then show "scroll_pager decrease_stops sample max_scrolls = \<lparr>phase = STABLE, scrolls = Suc k\<rparr>"
      using d by simp
  next
    assume "\<forall>i<max_scrolls. sample i < sample (Suc i)"
    then show "scroll_pager decrease_stops sample max_scrolls = \<lparr>phase = DONE, scrolls = max_scrolls\<rparr>"
      by (rule e)
  qed
qed

text \<open>
  C8 on the example of the spec: with \<open>max_scrolls = 5\<close> and the counts 10, 10 the pager
  stops after the second sample, having issued exactly one scroll.
\<close>

theorem scroll_pager_terminates_witness:
  "(0::nat) < 5 \<and> (\<lambda>i::nat. 10::nat) (Suc 0) = (\<lambda>i::nat. 10::nat) 0
   \<and> scroll_pager True (\<lambda>i. 10) 5 = \<lparr>phase = STABLE, scrolls = 1\<rparr>
   \<and> scroll_pager False (\<lambda>i. 10) 5 = \<lparr>phase = STABLE, scrolls = 1\<rparr>"
proof -
  have hyp: "(0::nat) < 5 \<and> (\<forall>i<0::nat. (\<lambda>i::nat. 10::nat) i < (\<lambda>i::nat. 10::nat) (Suc i))
        \<and> (\<lambda>i::nat. 10::nat) (Suc 0) = (\<lambda>i::nat. 10::nat) 0"
    by simp
  have "scroll_pager True (\<lambda>i. 10) 5 = \<lparr>phase = STABLE, scrolls = Suc 0\<rparr>"
    using scroll_pager_terminates[of True "\<lambda>i. 10" 5 0] hyp by blast
  moreover have "scroll_pager False (\<lambda>i. 10) 5 = \<lparr>phase = STABLE, scrolls = Suc 0\<rparr>"
    using scroll_pager_terminates[of False "\<lambda>i. 10" 5 0] hyp by blast
  ultimately show ?thesis by simp
qed

text \<open>
  C8 as the spec states it, strictly earlier at any two equal consecutive samples, does
  not hold: with \<open>max_scrolls = 1\<close> and the counts 10, 10 the equal pair is seen only after
  the one permitted scroll, so the pager stops after \<open>max_scrolls\<close> iterations, not before.
\<close>

theorem scroll_pager_equal_at_last_iteration:
  "scroll_pager True (\<lambda>i. 10) 1 = \<lparr>phase = STABLE, scrolls = 1\<rparr>
   \<and> scroll_pager False (\<lambda>i. 10) 1 = \<lparr>phase = STABLE, scrolls = 1\<rparr>
   \<and> \<not> scrolls (scroll_pager True (\<lambda>i. 10) 1) < 1
   \<and> \<not> scrolls (scroll_pager False (\<lambda>i. 10) 1) < 1"
  by (simp add: scroll_pager_def)

text \<open>
  C9. For every limit less than or equal to 0, \<open>scrape\<close> returns the empty list
  immediately: \<open>on_start\<close> is invoked, but no navigation, login check, scrolling,
  extraction, \<open>on_progress\<close> or \<open>on_complete\<close> occurs. The log of calls is the one call of
  \<open>on_start\<close>, whatever the page and the callback are; the result is the empty list
  (unless \<open>on_start\<close> itself raises, and then its exception is the result).
\<close>

theorem nonpositive_limit_returns_empty:
  "limit \<le> 0 \<longrightarrow>
     scrape env cb limit max_scrolls
       = ((case cb (OnStart ''SavedJobs'' saved_jobs_url) of None \<Rightarrow> Inr [] | Some e \<Rightarrow> Inl e),
          [Callback (OnStart ''SavedJobs'' saved_jobs_url)])"
  by (simp add: scrape_def then_do_def await_def return_val_def split: option.splits)

text \<open>C9 at limit 0 with the silent callback.\<close>

theorem nonpositive_limit_returns_empty_witness:
  "(0::int) \<le> 0
   \<and> scrape selector_times_out silent 0 5
       = (Inr [], [Callback (OnStart ''SavedJobs'' ''https://www.linkedin.com/my-items/saved-jobs/'')])"
  using nonpositive_limit_returns_empty[of 0 selector_times_out silent 5]
  by (simp add: silent_def saved_jobs_url_def)

text \<open>
  C10. Every string in the returned job-URL list contains no question mark and starts
  with \<open>http\<close>, in the list of the extractor and in the accumulator of the pagination
  script: an href already beginning with \<open>http\<close> is kept as it is after the query string
  is stripped, and any other href is prefixed with \<open>https://www.linkedin.com\<close>.
\<close>

theorem job_urls_well_formed:
  "(\<forall>u \<in> set (extract_job_urls located limit). CHR ''?'' \<notin> set u \<and> startswith u ''http'')
   \<and> (\<forall>u \<in> set (all_job_urls (main_loop fuel browser pager_start)).
         CHR ''?'' \<notin> set u \<and> startswith u ''http'')
   \<and> (startswith href ''http''
        \<longrightarrow> clean_url href = Inr (takeWhile (\<lambda>c. c \<noteq> CHR ''?'') href))
   \<and> (\<not> startswith href ''http''
        \<longrightarrow> clean_url href = Inr (''https://www.linkedin.com'' @ takeWhile (\<lambda>c. c \<noteq> CHR ''?'') href))"
proof -
  have a: "\<forall>u \<in> set (extract_job_urls located limit). CHR ''?'' \<notin> set u \<and> startswith u ''http''"
  proof (cases located)
    case (Inl e)
    then show ?thesis by (simp add: extract_job_urls_def)
  next
    case (Inr links)
    show ?thesis
    proof
      fix u assume "u \<in> set (extract_job_urls located limit)"
      then have "u \<in> set (List.map_filter link_url links)"
        unfolding Inr extract_job_urls_eq using in_set_takeD by fastforce
      then obtain l where "link_url l = Some u" by (auto simp: set_map_filter)
      then show "CHR ''?'' \<notin> set u \<and> startswith u ''http''"
        using link_url_props by (simp add: startswith_def)
    qed
  qed
  have b: "\<forall>u \<in> set (all_job_urls (main_loop fuel browser pager_start)).
         CHR ''?'' \<notin> set u \<and> startswith u ''http''"
  proof (rule main_loop_urls_invariant)
    show "\<forall>u\<in>set (all_job_urls pager_start). CHR ''?'' \<notin> set u \<and> startswith u ''http''"
      by (simp add: pager_start_def)
  next
    fix ls acc
    assume "\<forall>u\<in>set acc. CHR ''?'' \<notin> set u \<and> startswith u ''http''"
    then show "\<forall>u\<in>set (collect_links ls acc). CHR ''?'' \<notin> set u \<and> startswith u ''http''"
      using link_url_props by (auto simp: set_collect_links startswith_def)
  qed
  have c: "clean_url href = Inr (takeWhile (\<lambda>c. c \<noteq> CHR ''?'') href)" if "startswith href ''http''"
    using that by (simp add: clean_url_eq http_prefix_takeWhile startswith_def)
  have d: "clean_url href = Inr (''https://www.linkedin.com'' @ takeWhile (\<lambda>c. c \<noteq> CHR ''?'') href)"
    if "\<not> startswith href ''http''"
    using that by (simp add: clean_url_eq http_prefix_takeWhile startswith_def)
  show ?thesis using a b c d by blast
qed

text \<open>C10 on an absolute and on a relative href.\<close>

theorem job_urls_well_formed_witness:
  "startswith ''https://x.test/jobs/view/7?a=b'' ''http''
   \<and> clean_url ''https://x.test/jobs/view/7?a=b'' = Inr ''https://x.test/jobs/view/7''
   \<and> \<not> startswith ''/jobs/view/8?a=b'' ''http''
   \<and> clean_url ''/jobs/view/8?a=b'' = Inr ''https://www.linkedin.com/jobs/view/8''
   \<and> extract_job_urls (Inr [Inr (Some ''/jobs/view/8?a=b'')]) 5 = [''https://www.linkedin.com/jobs/view/8'']
   \<and> CHR ''?'' \<notin> set ''https://www.linkedin.com/jobs/view/8''
   \<and> startswith ''https://www.linkedin.com/jobs/view/8'' ''http''"
proof -
  have h1: "startswith ''https://x.test/jobs/view/7?a=b'' ''http''" by (simp add: startswith_def)
  have h2: "\<not> startswith ''/jobs/view/8?a=b'' ''http''" by (simp add: startswith_def)
  have ex: "extract_job_urls (Inr [Inr (Some ''/jobs/view/8?a=b'')]) 5 = [''https://www.linkedin.com/jobs/view/8'']"
    by (simp add: extract_job_urls_def link_url_def clean_url_def startswith_def index0_def)
  have c1: "clean_url ''https://x.test/jobs/view/7?a=b'' = Inr (takeWhile (\<lambda>c. c \<noteq> CHR ''?'') ''https://x.test/jobs/view/7?a=b'')"
    using job_urls_well_formed[of "Inr []" 0 0 "\<lambda>n. two_pages n" "''https://x.test/jobs/view/7?a=b''"] h1 by blast
  have c2: "clean_url ''/jobs/view/8?a=b'' = Inr (''https://www.linkedin.com'' @ takeWhile (\<lambda>c. c \<noteq> CHR ''?'') ''/jobs/view/8?a=b'')"
    using job_urls_well_formed[of "Inr []" 0 0 "\<lambda>n. two_pages n" "''/jobs/view/8?a=b''"] h2 by blast
  have "\<forall>u \<in> set (extract_job_urls (Inr [Inr (Some ''/jobs/view/8?a=b'')]) 5). CHR ''?'' \<notin> set u \<and> startswith u ''http''"
    using job_urls_well_formed[of "Inr [Inr (Some ''/jobs/view/8?a=b'')]" 5 0 "\<lambda>n. two_pages n" "[]"] by blast
  then have wf: "CHR ''?'' \<notin> set ''https://www.linkedin.com/jobs/view/8'' \<and> startswith ''https://www.linkedin.com/jobs/view/8'' ''http''"
    unfolding ex by simp
  show ?thesis using h1 h2 ex c1 c2 wf by simp
qed

end
